theory Spec2Isabelle
  imports Complex_Main "HOL-Library.Word"
begin

section \<open>The fox-control objective of \<open>examples/lotka.py\<close>\<close>

text \<open>
  The module evaluates a decision vector \<open>X\<close> by decoding it into fox-killing times,
  propagating a Lotka-Volterra population between those times with scipy's \<open>ode\<close>
  integrator, and scoring the peak rabbit population of the five following years.
  Python floats are modelled as \<^typ>\<open>real\<close>; the shared evaluation counter, a
  \<open>ctypes.c_int\<close>, as a 32-bit word. The scipy integrator is outside the repository:
  it is a parameter of the model (a function that may raise).
\<close>

subsection \<open>Data\<close>

type_synonym pop = "real \<times> real"

datatype error = SolverError

text \<open>What \<open>logger().info\<close> receives on an improvement (the elapsed wall time and the
  rounding for display are left out).\<close>

record log_record =
  nfev :: int
  fval :: real
  fox_kill_at :: "real list"
  x_logged :: "real list"

text \<open>The module globals that \<open>fitness\<close> writes: \<open>bval\<close>, \<open>evals\<close>, and the logger's sink.\<close>

record shared =
  bval :: real
  evals :: "32 word"
  logged :: "log_record list"

text \<open>The part of a scipy \<open>ode\<close> object the module uses: its current state and time.\<close>

record ode =
  cur_y :: pop
  cur_t :: real

text \<open>The initial-value-problem solver behind \<open>I.integrate\<close>: given the right-hand side,
  the state \<open>y\<close> at time \<open>t\<close> and the target time, it returns the state there or raises.\<close>

type_synonym solver = "(real \<Rightarrow> pop \<Rightarrow> pop) \<Rightarrow> pop \<Rightarrow> real \<Rightarrow> real \<Rightarrow> error + pop"

subsection \<open>Module globals\<close>

definition a :: real where "a = 1"
definition b :: real where "b = 1 / 10"
definition c :: real where "c = 3 / 2"
definition d :: real where "d = b * (3 / 4)"

definition pop0 :: pop where "pop0 = (10, 5)"

definition dim :: nat where "dim = 20"

definition bounds :: "real list \<times> real list" where
  "bounds = (replicate dim (- 1), replicate dim 1)"

definition bval_init :: real where "bval_init = 10 ^ 99"

definition shared_init :: shared where
  "shared_init = \<lparr>bval = bval_init, evals = 0, logged = []\<rparr>"

subsection \<open>The vector field and the integrator wrapper\<close>

definition lotkavolterra :: "real \<Rightarrow> pop \<Rightarrow> real \<Rightarrow> real \<Rightarrow> real \<Rightarrow> real \<Rightarrow> pop" where
  "lotkavolterra t p pa pb pc pd =
     (case p of (x, y) \<Rightarrow> (pa * x - pb * x * y, - pc * y + pd * x * y))"

definition integrator :: ode where
  "integrator = \<lparr>cur_y = (0, 0), cur_t = 0\<rparr>"

definition set_initial_value :: "ode \<Rightarrow> pop \<Rightarrow> real \<Rightarrow> ode" where
  "set_initial_value I y t = I\<lparr>cur_y := y, cur_t := t\<rparr>"

definition integrate :: "solver \<Rightarrow> ode \<Rightarrow> real \<Rightarrow> error + (pop \<times> ode)" where
  "integrate sv I t =
     (case sv (\<lambda>s p. lotkavolterra s p a b c d) (cur_y I) (cur_t I) t of
        Inl e \<Rightarrow> Inl e
      | Inr y' \<Rightarrow> Inr (y', I\<lparr>cur_y := y', cur_t := t\<rparr>))"

subsection \<open>Decoding the decision vector\<close>

text \<open>
  \<^verbatim>\<open>
  ts = []
  for year, x in enumerate(X):
      if x > 0: ts.append(t0 + year + x)
  ts.append(t1)
  \<close>
\<close>

fun decode_loop :: "real \<Rightarrow> (nat \<times> real) list \<Rightarrow> real list \<Rightarrow> real list" where
  "decode_loop t0 [] ts = ts"
| "decode_loop t0 ((year, x) # rest) ts =
     decode_loop t0 rest (if x > 0 then ts @ [t0 + real year + x] else ts)"

definition event_times :: "real list \<Rightarrow> real list" where
  "event_times X =
     (let t0 = 0; t1 = real (length X); ts = decode_loop t0 (enumerate 0 X) []
      in ts @ [t1])"

definition in_bounds :: "real list \<Rightarrow> bool" where
  "in_bounds X = list_all (\<lambda>x. - 1 \<le> x \<and> x \<le> 1) X"

subsection \<open>The event-driven phase\<close>

text \<open>\<^verbatim>\<open>pop[1] = max(1, pop[1]-1)\<close>\<close>

definition kill_fox :: "pop \<Rightarrow> pop" where
  "kill_fox p = (fst p, max 1 (snd p - 1))"

text \<open>
  \<^verbatim>\<open>
  for i in range(len(ts)):
      pop = integrate(I, ts[i])
      if i < len(ts)-1:
          pop[1] = max(1, pop[1]-1)
          I.set_initial_value(pop, ts[i])
  \<close>
  The loop runs over the indices \<open>[0..<length ts]\<close>; an exception of the integrator ends it.
\<close>

definition sim_step :: "solver \<Rightarrow> real list \<Rightarrow> nat \<Rightarrow> pop \<times> ode \<Rightarrow> error + (pop \<times> ode)" where
  "sim_step sv ts i st =
     (case integrate sv (snd st) (ts ! i) of
        Inl e \<Rightarrow> Inl e
      | Inr (p, I) \<Rightarrow>
          if int i < int (length ts) - 1
          then let p' = kill_fox p in Inr (p', set_initial_value I p' (ts ! i))
          else Inr (p, I))"

fun sim_loop :: "solver \<Rightarrow> real list \<Rightarrow> nat list \<Rightarrow> pop \<times> ode \<Rightarrow> error + (pop \<times> ode)" where
  "sim_loop sv ts [] st = Inr st"
| "sim_loop sv ts (i # rest) st =
     (case sim_step sv ts i st of
        Inl e \<Rightarrow> Inl e
      | Inr st' \<Rightarrow> sim_loop sv ts rest st')"

subsection \<open>Scoring\<close>

text \<open>\<open>np.linspace(start, stop, num)\<close>: \<open>num\<close> points, both ends included.\<close>

definition linspace :: "real \<Rightarrow> real \<Rightarrow> nat \<Rightarrow> real list" where
  "linspace start stop num =
     map (\<lambda>k. start + real k * ((stop - start) / real (num - 1))) [0..<num]"

text \<open>
  \<^verbatim>\<open>
  max_rabbits = 0
  for t in np.linspace(t1, t1 + 5, 50):
      pop = integrate(I, t)
      max_rabbits = max(max_rabbits, pop[0])
  \<close>
\<close>

fun score_loop :: "solver \<Rightarrow> real list \<Rightarrow> real \<times> pop \<times> ode \<Rightarrow> error + (real \<times> pop \<times> ode)" where
  "score_loop sv [] st = Inr st"
| "score_loop sv (t # rest) (max_rabbits, p, I) =
     (case integrate sv I t of
        Inl e \<Rightarrow> Inl e
      | Inr (p', I') \<Rightarrow> score_loop sv rest (max max_rabbits (fst p'), p', I'))"

subsection \<open>Book keeping and the evaluator\<close>

text \<open>
  \<^verbatim>\<open>
  evals.value += 1
  if value < bval.value and value < 1E99:
      bval.value = value
      logger().info(...)
  return value
  \<close>
\<close>

definition book_keeping :: "real list \<Rightarrow> real list \<Rightarrow> real \<Rightarrow> shared \<Rightarrow> shared" where
  "book_keeping X ts v s =
     (let s1 = s\<lparr>evals := evals s + 1\<rparr>
      in if v < bval s1 \<and> v < 10 ^ 99
         then s1\<lparr>bval := v,
                 logged := logged s1 @
                   [\<lparr>nfev = sint (evals s1), fval = v, fox_kill_at = butlast ts, x_logged = X\<rparr>]\<rparr>
         else s1)"

text \<open>\<open>fitness(X)\<close>: the result is the returned value or the exception that left the
  function, together with the shared globals afterwards.\<close>

definition fitness :: "solver \<Rightarrow> real list \<Rightarrow> shared \<Rightarrow> (error + real) \<times> shared" where
  "fitness sv X s =
     (let t0 = 0;
          t1 = real (length X);
          ts = event_times X;
          I = set_initial_value integrator pop0 t0
      in case sim_loop sv ts [0..<length ts] (pop0, I) of
           Inl e \<Rightarrow> (Inl e, s)
         | Inr (p, I1) \<Rightarrow>
             (case score_loop sv (linspace t1 (t1 + 5) 50) (0, p, I1) of
                Inl e \<Rightarrow> (Inl e, s)
              | Inr (max_rabbits, p2, I2) \<Rightarrow>
                  (let v = - max_rabbits in (Inr v, book_keeping X ts v s))))"

text \<open>A run of the optimizer driver as the evaluator sees it: the vectors it passes to
  \<open>fitness\<close>, one call after the other, each on the globals the previous call left.\<close>

fun evaluate_all :: "solver \<Rightarrow> real list list \<Rightarrow> shared \<Rightarrow> (error + real) list \<times> shared" where
  "evaluate_all sv [] s = ([], s)"
| "evaluate_all sv (X # Xs) s =
     (case fitness sv X s of (r, s1) \<Rightarrow>
        (case evaluate_all sv Xs s1 of (rs, s2) \<Rightarrow> (r # rs, s2)))"

text \<open>Two concrete solvers for evaluating the model: one explicit Euler step, and a
  solver that raises at once.\<close>

definition euler :: solver where
  "euler f y t0 t = Inr (fst y + (t - t0) * fst (f t0 y), snd y + (t - t0) * snd (f t0 y))"

definition failing :: solver where
  "failing f y t0 t = Inl SolverError"

text \<open>A solver that leaves the state as it is, for evaluating whole runs.\<close>

definition hold :: solver where
  "hold f y t0 t = Inr y"

text \<open>The intervention times in closed form, for the slots from \<open>n\<close> on (a proof device:
  \<open>decode_loop\<close> is shown to compute it).\<close>

fun kill_times :: "nat \<Rightarrow> real list \<Rightarrow> real list" where
  "kill_times n [] = []"
| "kill_times n (x # X) = (if 0 < x then [real n + x] else []) @ kill_times (Suc n) X"

text \<open>Propagation without transitions, as the scoring window is described: from state \<open>y\<close>
  at time \<open>t\<close>, the solver is continued from each sample time to the next and the states
  at the sample times are collected (the reference against which \<open>score_loop\<close> is read).\<close>

fun propagate :: "solver \<Rightarrow> pop \<Rightarrow> real \<Rightarrow> real list \<Rightarrow> error + pop list" where
  "propagate sv y t [] = Inr []"
| "propagate sv y t (u # us) =
     (case sv (\<lambda>s p. lotkavolterra s p a b c d) y t u of
        Inl e \<Rightarrow> Inl e
      | Inr y' \<Rightarrow>
          (case propagate sv y' u us of
             Inl e \<Rightarrow> Inl e
           | Inr ys \<Rightarrow> Inr (y' # ys)))"

text \<open>The values the calls of a run returned (a call that raised returns none), and those
  below the threshold \<open>1E99\<close> of the book keeping.\<close>

fun returned_values :: "(error + real) list \<Rightarrow> real list" where
  "returned_values [] = []"
| "returned_values (Inl e # rs) = returned_values rs"
| "returned_values (Inr v # rs) = v # returned_values rs"

definition accepted_values :: "(error + real) list \<Rightarrow> real list" where
  "accepted_values rs = filter (\<lambda>v. v < 10 ^ 99) (returned_values rs)"

text \<open>
  \<open>evals.value += 1\<close> on a \<open>RawValue\<close> is a read of the shared cell followed by a write of
  the value read plus one, with no lock. A worker is before its read, holds the value it
  read, or has written; a schedule names the worker that takes the next step.
\<close>

datatype incr_pc = BeforeLoad | Loaded "32 word" | Stored

fun worker_step :: "nat \<Rightarrow> 32 word \<times> incr_pc list \<Rightarrow> 32 word \<times> incr_pc list" where
  "worker_step k (ev, ws) =
     (if k < length ws
      then (case ws ! k of
              BeforeLoad \<Rightarrow> (ev, ws[k := Loaded ev])
            | Loaded n \<Rightarrow> (n + 1, ws[k := Stored])
            | Stored \<Rightarrow> (ev, ws))
      else (ev, ws))"

definition run_schedule :: "nat list \<Rightarrow> 32 word \<times> incr_pc list \<Rightarrow> 32 word \<times> incr_pc list" where
  "run_schedule ks st = fold worker_step ks st"

subsection \<open>The evaluator on an explicit store\<close>

text \<open>
  \<open>fitness\<close> starts with \<open>pop = pop0\<close>, an alias of the global list, and later assigns
  \<open>pop[1]\<close>. To say which objects a call mutates, the same code is modelled once more
  with Python's objects in a store: the list \<open>pop0\<close>, the argument \<open>X\<close>, and the arrays the
  integrator holds and returns. A variable holds an address. \<open>set_initial_value\<close> keeps
  \<open>asarray(y)\<close>: a new array when \<open>y\<close> is a list, \<open>y\<close> itself when it is an array already;
  \<open>integrate\<close> stores the solver's result in a new array, keeps it as \<open>I._y\<close> and returns
  it. The list \<open>ts\<close> and the integrator object are created by the call and stay values.
  The floats \<open>a\<close>, \<open>b\<close>, \<open>c\<close>, \<open>d\<close> and \<open>bounds\<close> are immutable or not referred to: the
  function has no assignment to them.
\<close>

datatype obj = PopList pop | PopArray pop | Vec "real list"

record store =
  cells :: "nat \<rightharpoonup> obj"
  next_addr :: nat

record ode_h =
  y_ref :: nat
  t_h :: real

definition pop0_ref :: nat where "pop0_ref = 0"

text \<open>Allocation, reads, and the assignment \<open>pop[1] = v\<close> through a reference.\<close>

definition alloc :: "store \<Rightarrow> obj \<Rightarrow> nat \<times> store" where
  "alloc st ob =
     (next_addr st, st\<lparr>cells := (cells st)(next_addr st \<mapsto> ob), next_addr := Suc (next_addr st)\<rparr>)"

definition read_pop :: "store \<Rightarrow> nat \<Rightarrow> pop" where
  "read_pop st r =
     (case cells st r of Some (PopList p) \<Rightarrow> p | Some (PopArray p) \<Rightarrow> p | _ \<Rightarrow> (0, 0))"

definition read_vec :: "store \<Rightarrow> nat \<Rightarrow> real list" where
  "read_vec st r = (case cells st r of Some (Vec xs) \<Rightarrow> xs | _ \<Rightarrow> [])"

fun set_snd :: "obj \<Rightarrow> real \<Rightarrow> obj" where
  "set_snd (PopList p) v = PopList (fst p, v)"
| "set_snd (PopArray p) v = PopArray (fst p, v)"
| "set_snd (Vec xs) v = Vec (xs[1 := v])"

definition write_fox :: "store \<Rightarrow> nat \<Rightarrow> real \<Rightarrow> store" where
  "write_fox st r v =
     (case cells st r of
        None \<Rightarrow> st
      | Some ob \<Rightarrow> st\<lparr>cells := (cells st)(r \<mapsto> set_snd ob v)\<rparr>)"

text \<open>The scipy object and the wrapper, on the store. An exception carries the store it
  leaves behind.\<close>

definition integrator_h :: "store \<Rightarrow> ode_h \<times> store" where
  "integrator_h st = (case alloc st (Vec [0]) of (r, st') \<Rightarrow> (\<lparr>y_ref = r, t_h = 0\<rparr>, st'))"

definition set_initial_value_h :: "ode_h \<Rightarrow> nat \<Rightarrow> real \<Rightarrow> store \<Rightarrow> ode_h \<times> store" where
  "set_initial_value_h I r t st =
     (case cells st r of
        Some (PopArray p) \<Rightarrow> (I\<lparr>y_ref := r, t_h := t\<rparr>, st)
      | Some (PopList p) \<Rightarrow>
          (case alloc st (PopArray p) of (r', st') \<Rightarrow> (I\<lparr>y_ref := r', t_h := t\<rparr>, st'))
      | Some (Vec xs) \<Rightarrow>
          (case alloc st (Vec xs) of (r', st') \<Rightarrow> (I\<lparr>y_ref := r', t_h := t\<rparr>, st'))
      | None \<Rightarrow> (I\<lparr>t_h := t\<rparr>, st))"

definition integrate_h ::
  "solver \<Rightarrow> ode_h \<Rightarrow> real \<Rightarrow> store \<Rightarrow> (error \<times> store) + (nat \<times> ode_h \<times> store)" where
  "integrate_h sv I t st =
     (case sv (\<lambda>s p. lotkavolterra s p a b c d) (read_pop st (y_ref I)) (t_h I) t of
        Inl e \<Rightarrow> Inl (e, st)
      | Inr y' \<Rightarrow>
          (case alloc st (PopArray y') of (r, st') \<Rightarrow> Inr (r, I\<lparr>y_ref := r, t_h := t\<rparr>, st')))"

definition sim_step_h ::
  "solver \<Rightarrow> real list \<Rightarrow> nat \<Rightarrow> nat \<times> ode_h \<times> store \<Rightarrow> (error \<times> store) + (nat \<times> ode_h \<times> store)" where
  "sim_step_h sv ts i st =
     (case integrate_h sv (fst (snd st)) (ts ! i) (snd (snd st)) of
        Inl e \<Rightarrow> Inl e
      | Inr (r, I, h) \<Rightarrow>
          if int i < int (length ts) - 1
          then let h1 = write_fox h r (max 1 (snd (read_pop h r) - 1))
               in (case set_initial_value_h I r (ts ! i) h1 of (I', h2) \<Rightarrow> Inr (r, I', h2))
          else Inr (r, I, h))"

fun sim_loop_h ::
  "solver \<Rightarrow> real list \<Rightarrow> nat list \<Rightarrow> nat \<times> ode_h \<times> store \<Rightarrow> (error \<times> store) + (nat \<times> ode_h \<times> store)" where
  "sim_loop_h sv ts [] st = Inr st"
| "sim_loop_h sv ts (i # rest) st =
     (case sim_step_h sv ts i st of
        Inl e \<Rightarrow> Inl e
      | Inr st' \<Rightarrow> sim_loop_h sv ts rest st')"

fun score_loop_h ::
  "solver \<Rightarrow> real list \<Rightarrow> real \<times> nat \<times> ode_h \<times> store \<Rightarrow> (error \<times> store) + (real \<times> nat \<times> ode_h \<times> store)" where
  "score_loop_h sv [] st = Inr st"
| "score_loop_h sv (t # rest) (max_rabbits, r, I, h) =
     (case integrate_h sv I t h of
        Inl e \<Rightarrow> Inl e
      | Inr (r', I', h') \<Rightarrow>
          score_loop_h sv rest (max max_rabbits (fst (read_pop h' r')), r', I', h'))"

text \<open>\<open>fitness(X)\<close> with \<open>X\<close> and \<open>pop0\<close> given by reference.\<close>

definition fitness_h :: "solver \<Rightarrow> nat \<Rightarrow> store \<Rightarrow> shared \<Rightarrow> (error + real) \<times> shared \<times> store" where
  "fitness_h sv x_ref h s =
     (let X = read_vec h x_ref;
          t0 = 0;
          t1 = real (length X);
          pop = pop0_ref;
          ts = event_times X
      in case integrator_h h of (I0, h0) \<Rightarrow>
         (case set_initial_value_h I0 pop t0 h0 of (I, h1) \<Rightarrow>
            (case sim_loop_h sv ts [0..<length ts] (pop, I, h1) of
               Inl (e, h2) \<Rightarrow> (Inl e, s, h2)
             | Inr (r, I1, h2) \<Rightarrow>
                 (case score_loop_h sv (linspace t1 (t1 + 5) 50) (0, r, I1, h2) of
                    Inl (e, h3) \<Rightarrow> (Inl e, s, h3)
                  | Inr (max_rabbits, r2, I2, h3) \<Rightarrow>
                      (let v = - max_rabbits in (Inr v, book_keeping X ts v s, h3))))))"

text \<open>Reading a store-level state as a state of the value-level model, and the frame
  condition: every object allocated before address \<open>n\<close> is as it was.\<close>

definition ode_of :: "ode_h \<Rightarrow> store \<Rightarrow> ode" where
  "ode_of I h = \<lparr>cur_y = read_pop h (y_ref I), cur_t = t_h I\<rparr>"

fun store_of :: "(error \<times> store) + ('a \<times> ode_h \<times> store) \<Rightarrow> store" where
  "store_of (Inl (e, h)) = h"
| "store_of (Inr (x, I, h)) = h"

fun ode_result :: "(error \<times> store) + ('a \<times> ode_h \<times> store) \<Rightarrow> error + ode" where
  "ode_result (Inl (e, h)) = Inl e"
| "ode_result (Inr (x, I, h)) = Inr (ode_of I h)"

fun score_result :: "(error \<times> store) + (real \<times> nat \<times> ode_h \<times> store) \<Rightarrow> error + (real \<times> ode)" where
  "score_result (Inl (e, h)) = Inl e"
| "score_result (Inr (m, r, I, h)) = Inr (m, ode_of I h)"

fun score_store :: "(error \<times> store) + (real \<times> nat \<times> ode_h \<times> store) \<Rightarrow> store" where
  "score_store (Inl (e, h)) = h"
| "score_store (Inr (m, r, I, h)) = h"

definition preserves :: "nat \<Rightarrow> store \<Rightarrow> store \<Rightarrow> bool" where
  "preserves n h h' \<longleftrightarrow> n \<le> next_addr h' \<and> (\<forall>q<n. cells h' q = cells h q)"

section \<open>Decoding\<close>

text \<open>\<open>in_bounds\<close> is the module's \<open>bounds\<close>, for vectors of the module's dimension.\<close>

lemma in_bounds_bounds:
  "length X = dim \<Longrightarrow>
   in_bounds X \<longleftrightarrow> list_all2 (\<le>) (fst bounds) X \<and> list_all2 (\<le>) X (snd bounds)"
  by (auto simp add: in_bounds_def bounds_def list_all2_conv_all_nth list_all_length)

lemma decode_loop_eq:
  "decode_loop t0 es ts =
     ts @ map (\<lambda>(i, x). t0 + real i + x) (filter (\<lambda>(i, x). 0 < x) es)"
  by (induction es arbitrary: ts) auto

lemma event_times_eq:
  "event_times X =
     map (\<lambda>(i, x). real i + x) (filter (\<lambda>(i, x). 0 < x) (enumerate 0 X)) @ [real (length X)]"
  by (simp add: event_times_def decode_loop_eq)

lemma kill_times_eq:
  "map (\<lambda>(i, x). real i + x) (filter (\<lambda>(i, x). 0 < x) (enumerate n X)) = kill_times n X"
  by (induction X arbitrary: n) simp_all

lemma event_times_kill: "event_times X = kill_times 0 X @ [real (length X)]"
  by (simp add: event_times_eq kill_times_eq)

lemma length_kill_times: "length (kill_times n X) = length (filter (\<lambda>x. 0 < x) X)"
  by (induction X arbitrary: n) simp_all

lemma kill_times_nonpos: "\<forall>x\<in>set X. x \<le> 0 \<Longrightarrow> kill_times n X = []"
  by (induction X arbitrary: n) simp_all






text \<open>
  Claim C4. For every decision vector \<open>X\<close>, the decoded schedule consists exactly of the
  times \<open>i + X[i]\<close> of the indices \<open>i\<close> with \<open>X[i] > 0\<close>, in index order, followed by the
  terminal time \<open>len(X)\<close>; its length is the number of strictly positive entries plus one,
  and when every entry is \<open>\<le> 0\<close> the schedule is \<open>[len(X)]\<close>.
\<close>

theorem event_times_spec:
  "event_times X =
     map (\<lambda>(i, x). real i + x) (filter (\<lambda>(i, x). 0 < x) (enumerate 0 X)) @ [real (length X)]
   \<and> length (event_times X) = length (filter (\<lambda>x. 0 < x) X) + 1
   \<and> ((\<forall>x\<in>set X. x \<le> 0) \<longrightarrow> event_times X = [real (length X)])"
proof -
  have 1: "event_times X =
     map (\<lambda>(i, x). real i + x) (filter (\<lambda>(i, x). 0 < x) (enumerate 0 X)) @ [real (length X)]"
    by (rule event_times_eq)
  have 2: "length (event_times X) = length (filter (\<lambda>x. 0 < x) X) + 1"
    by (simp add: event_times_kill length_kill_times)
  have 3: "(\<forall>x\<in>set X. x \<le> 0) \<longrightarrow> event_times X = [real (length X)]"
    by (simp add: event_times_kill kill_times_nonpos)
  from 1 2 3 show ?thesis by blast
qed

theorem event_times_spec_witness:
  "- 1 / 2 \<le> (0::real) \<and> (0::real) \<le> 0 \<and> - 1 \<le> (0::real)
   \<and> event_times [- 1 / 2, 0, - 1] = [3]
   \<and> event_times [1 / 2, - 1 / 2, 1 / 4] = [1 / 2, 9 / 4, 3]
   \<and> length (event_times [1 / 2, - 1 / 2, 1 / 4]) = 3"
  using event_times_spec [of "[- 1 / 2, 0, - 1]"] event_times_spec [of "[1 / 2, - 1 / 2, 1 / 4]"]
  by simp




section \<open>The event-driven phase\<close>

lemma sum_case_eta: "(case r of Inl e \<Rightarrow> Inl e | Inr (p, I) \<Rightarrow> Inr (p, I)) = r"
  by (cases r) auto


lemma sim_step_last:
  "ts \<noteq> [] \<Longrightarrow> sim_step sv ts (length ts - 1) st = integrate sv (snd st) (last ts)"
  by (auto simp add: sim_step_def last_conv_nth split: sum.splits)

lemmas eval_defs = sim_step_def integrate_def euler_def hold_def failing_def
  set_initial_value_def integrator_def pop0_def lotkavolterra_def a_def b_def c_def d_def
  kill_fox_def Let_def

lemma sim_loop_append:
  "sim_loop sv ts (xs @ ys) st =
     (case sim_loop sv ts xs st of Inl e \<Rightarrow> Inl e | Inr st' \<Rightarrow> sim_loop sv ts ys st')"
  by (induction xs arbitrary: st) (auto split: sum.splits)

lemma sim_loop_single: "sim_loop sv ts [i] st = sim_step sv ts i st"
  by (cases "sim_step sv ts i st") simp_all

lemma upt_last_split: "ts \<noteq> [] \<Longrightarrow> [0..<length ts] = [0..<length ts - 1] @ [length ts - 1]"
proof -
  assume "ts \<noteq> []"
  then obtain n where n: "length ts = Suc n" by (cases ts) auto
  show ?thesis by (simp add: n)
qed

lemma sim_loop_terminal:
  assumes "ts \<noteq> []"
  shows "sim_loop sv ts [0..<length ts] st =
     (case sim_loop sv ts [0..<length ts - 1] st of
        Inl e \<Rightarrow> Inl e
      | Inr st' \<Rightarrow> integrate sv (snd st') (last ts))"
proof -
  have "sim_loop sv ts [0..<length ts] st = sim_loop sv ts ([0..<length ts - 1] @ [length ts - 1]) st"
    using upt_last_split [OF assms] by simp
  also have "\<dots> = (case sim_loop sv ts [0..<length ts - 1] st of
        Inl e \<Rightarrow> Inl e
      | Inr st' \<Rightarrow> sim_loop sv ts [length ts - 1] st')"
    by (rule sim_loop_append)
  also have "\<dots> = (case sim_loop sv ts [0..<length ts - 1] st of
        Inl e \<Rightarrow> Inl e
      | Inr st' \<Rightarrow> integrate sv (snd st') (last ts))"
    by (simp only: sim_loop_single sim_step_last [OF assms])
  finally show ?thesis .
qed







section \<open>Scoring and the evaluator\<close>

lemma integrate_Inr:
  "integrate sv I t = Inr (p, I') \<Longrightarrow>
   sv (\<lambda>s p. lotkavolterra s p a b c d) (cur_y I) (cur_t I) t = Inr p \<and> cur_y I' = p \<and> cur_t I' = t"
  by (auto simp add: integrate_def split: sum.splits)

lemma integrate_Inl:
  "integrate sv I t = Inl e \<Longrightarrow> sv (\<lambda>s p. lotkavolterra s p a b c d) (cur_y I) (cur_t I) t = Inl e"
  by (auto simp add: integrate_def split: sum.splits)

lemma Max_fold_max: "Max (set (m # xs)) = fold max xs (m::real)"
  by (rule Max.set_eq_fold)

lemma Max_absorb_head: "Max (set (max m x # xs)) = Max (set (m # x # (xs::real list)))"
  by (simp only: Max_fold_max fold_simps max.commute [of x m])

lemma score_loop_propagate:
  "score_loop sv us (m, p, I) = Inr (m', p', I') \<Longrightarrow>
   \<exists>ps. propagate sv (cur_y I) (cur_t I) us = Inr ps \<and> length ps = length us
        \<and> m' = Max (set (m # map fst ps))"
proof (induction us arbitrary: m p I)
  case Nil
  then show ?case by simp
next
  case (Cons t us)
  from Cons.prems obtain p1 I1 where i: "integrate sv I t = Inr (p1, I1)"
    and r: "score_loop sv us (max m (fst p1), p1, I1) = Inr (m', p', I')"
    by (auto split: sum.splits)
  from integrate_Inr [OF i] have s: "sv (\<lambda>s p. lotkavolterra s p a b c d) (cur_y I) (cur_t I) t = Inr p1"
    and y: "cur_y I1 = p1" and c: "cur_t I1 = t" by simp_all
  from Cons.IH [OF r] obtain ps where ps: "propagate sv p1 t us = Inr ps"
    and len: "length ps = length us"
    and m': "m' = Max (set (max m (fst p1) # map fst ps))" by (auto simp add: y c)
  have "propagate sv (cur_y I) (cur_t I) (t # us) = Inr (p1 # ps)" using s ps by simp
  moreover have "m' = Max (set (m # map fst (p1 # ps)))" using m' by (simp only: Max_absorb_head list.map)
  ultimately show ?case using len by auto
qed

lemma sim_loop_final:
  assumes "ts \<noteq> []" and "sim_loop sv ts [0..<length ts] st = Inr (p, I)"
  shows "cur_y I = p \<and> cur_t I = last ts"
proof -
  from assms(2) obtain st' where "integrate sv (snd st') (last ts) = Inr (p, I)"
    by (auto simp add: sim_loop_terminal [OF assms(1)] split: sum.splits)
  then show ?thesis by (auto dest: integrate_Inr)
qed

lemma fitness_Inr:
  assumes "fitness sv X s = (Inr v, s')"
  shows "\<exists>p I m p2 I2.
     sim_loop sv (event_times X) [0..<length (event_times X)]
        (pop0, set_initial_value integrator pop0 0) = Inr (p, I)
     \<and> score_loop sv (linspace (real (length X)) (real (length X) + 5) 50) (0, p, I) = Inr (m, p2, I2)
     \<and> v = - m \<and> s' = book_keeping X (event_times X) v s"
  using assms by (auto simp add: fitness_def Let_def split: sum.splits)

lemma fitness_Inl: "fitness sv X s = (Inl e, s') \<Longrightarrow> s' = s"
  by (auto simp add: fitness_def Let_def split: sum.splits)

lemma linspace_50:
  "linspace t1 (t1 + 5) 50 = map (\<lambda>k. t1 + real k * (5 / 49)) [0..<50]"
  by (simp add: linspace_def)

lemma integrate_hold: "integrate hold I t = Inr (cur_y I, I\<lparr>cur_y := cur_y I, cur_t := t\<rparr>)"
  by (simp add: integrate_def hold_def)

lemma score_loop_hold:
  "us \<noteq> [] \<Longrightarrow> \<exists>p' I'. score_loop hold us (m, p, I) = Inr (max m (fst (cur_y I)), p', I')"
proof (induction us arbitrary: m p I)
  case Nil
  then show ?case by simp
next
  case (Cons u us)
  show ?case
  proof (cases "us = []")
    case True
    then show ?thesis by (simp add: integrate_hold)
  next
    case False
    from Cons.IH [OF False, of "max m (fst (cur_y I))" "cur_y I" "I\<lparr>cur_y := cur_y I, cur_t := u\<rparr>"]
    show ?thesis by (simp add: integrate_hold)
  qed
qed

lemma linspace_nonempty: "linspace t1 t2 50 \<noteq> []"
  by (simp add: linspace_def)

lemma fitness_hold:
  assumes "sim_loop hold (event_times X) [0..<length (event_times X)]
             (pop0, set_initial_value integrator pop0 0) = Inr (p, I)"
    and "cur_y I = p"
  shows "fitness hold X s
     = (Inr (- max 0 (fst p)), book_keeping X (event_times X) (- max 0 (fst p)) s)"
proof -
  from score_loop_hold [OF linspace_nonempty, of "real (length X)" "real (length X) + 5" 0 p I]
  obtain p' I' where sc: "score_loop hold (linspace (real (length X)) (real (length X) + 5) 50) (0, p, I)
      = Inr (max 0 (fst p), p', I')" by (auto simp add: assms(2))
  show ?thesis by (simp add: fitness_def assms(1) sc Let_def)
qed

lemma fitness_hold_short:
  "fitness hold [1 / 2, - 1 / 2] s
     = (Inr (- 10), book_keeping [1 / 2, - 1 / 2] (event_times [1 / 2, - 1 / 2]) (- 10) s)"
proof -
  have sim: "sim_loop hold (event_times [1 / 2, - 1 / 2]) [0..<length (event_times [1 / 2, - 1 / 2])]
       (pop0, set_initial_value integrator pop0 0)
       = Inr ((10, 4), \<lparr>cur_y = (10, 4), cur_t = 2\<rparr>)"
    by (simp add: event_times_def eval_defs)
  from fitness_hold [OF sim, of s] show ?thesis by simp
qed

lemma propagate_hold: "propagate hold y t us = Inr (replicate (length us) y)"
  by (induction us arbitrary: t) (simp_all add: hold_def)

lemma integrate_total:
  "\<forall>f y t u. \<exists>y'. sv f y t u = Inr y' \<Longrightarrow> \<exists>p I'. integrate sv I t = Inr (p, I')"
proof -
  assume "\<forall>f y t u. \<exists>y'. sv f y t u = Inr y'"
  then obtain y' where "sv (\<lambda>s p. lotkavolterra s p a b c d) (cur_y I) (cur_t I) t = Inr y'" by blast
  then show ?thesis by (simp add: integrate_def)
qed

lemma sim_step_total:
  assumes "\<forall>f y t u. \<exists>y'. sv f y t u = Inr y'"
  shows "\<exists>st'. sim_step sv ts i st = Inr st'"
proof -
  from integrate_total [OF assms] obtain p I' where "integrate sv (snd st) (ts ! i) = Inr (p, I')"
    by blast
  then show ?thesis by (simp add: sim_step_def Let_def)
qed

lemma sim_loop_total:
  assumes "\<forall>f y t u. \<exists>y'. sv f y t u = Inr y'"
  shows "\<exists>st'. sim_loop sv ts is st = Inr st'"
proof (induction "is" arbitrary: st)
  case Nil
  then show ?case by simp
next
  case (Cons i "is")
  from sim_step_total [OF assms] obtain st1 where s: "sim_step sv ts i st = Inr st1" by blast
  from Cons.IH obtain st2 where "sim_loop sv ts is st1 = Inr st2" by blast
  with s show ?case by simp
qed

lemma score_loop_total:
  assumes "\<forall>f y t u. \<exists>y'. sv f y t u = Inr y'"
  shows "\<exists>st'. score_loop sv us st = Inr st'"
proof (induction us arbitrary: st)
  case Nil
  obtain m p I where st: "st = (m, p, I)" using prod_cases3 by blast
  show ?case unfolding st by simp
next
  case (Cons u us)
  obtain m p I where st: "st = (m, p, I)" using prod_cases3 by blast
  from integrate_total [OF assms] obtain p1 I1 where i: "integrate sv I u = Inr (p1, I1)" by blast
  from Cons.IH obtain st2 where "score_loop sv us (max m (fst p1), p1, I1) = Inr st2" by blast
  with i have "score_loop sv (u # us) (m, p, I) = Inr st2" by simp
  then show ?case unfolding st by blast
qed

lemma fitness_total:
  assumes "\<forall>f y t u. \<exists>y'. sv f y t u = Inr y'"
  shows "\<exists>v. fitness sv X s = (Inr v, book_keeping X (event_times X) v s)"
proof -
  from sim_loop_total [OF assms] obtain st1 where
    1: "sim_loop sv (event_times X) [0..<length (event_times X)]
          (pop0, set_initial_value integrator pop0 0) = Inr st1" by blast
  obtain p I where st1: "st1 = (p, I)" using prod.exhaust by blast
  from score_loop_total [OF assms] obtain st2 where
    2: "score_loop sv (linspace (real (length X)) (real (length X) + 5) 50) (0, p, I) = Inr st2"
    by blast
  obtain m p2 I2 where st2: "st2 = (m, p2, I2)" using prod_cases3 by blast
  show ?thesis by (simp add: fitness_def 1 st1 2 st2 Let_def)
qed

lemma score_loop_ge: "score_loop sv us (m, p, I) = Inr (m', p', I') \<Longrightarrow> m \<le> m'"
proof -
  assume "score_loop sv us (m, p, I) = Inr (m', p', I')"
  from score_loop_propagate [OF this] obtain ps where
    "propagate sv (cur_y I) (cur_t I) us = Inr ps \<and> length ps = length us
       \<and> m' = Max (set (m # map fst ps))" ..
  then show ?thesis by simp
qed

lemma fitness_nonpos: "fitness sv X s = (Inr v, s') \<Longrightarrow> v \<le> 0"
proof -
  assume "fitness sv X s = (Inr v, s')"
  from fitness_Inr [OF this] obtain p I m p2 I2 where
    "score_loop sv (linspace (real (length X)) (real (length X) + 5) 50) (0, p, I) = Inr (m, p2, I2)"
    and v: "v = - m" by blast
  from score_loop_ge [OF this(1)] v show ?thesis by simp
qed

lemma integrate_failing: "integrate failing I t = Inl SolverError"
  by (simp add: integrate_def failing_def)

lemma fitness_failing: "fitness failing X s = (Inl SolverError, s)"
proof -
  have ne: "event_times X \<noteq> []" by (simp add: event_times_kill)
  have "sim_loop failing (event_times X) [0..<length (event_times X)] st = Inl SolverError" for st
  proof (cases "sim_loop failing (event_times X) [0..<length (event_times X) - 1] st")
    case (Inl e)
    then show ?thesis by (cases e) (simp add: sim_loop_terminal [OF ne])
  next
    case (Inr st')
    then show ?thesis by (simp add: sim_loop_terminal [OF ne] integrate_failing)
  qed
  then show ?thesis by (simp add: fitness_def)
qed

lemma book_keeping_evals: "evals (book_keeping X ts v s) = evals s + 1"
  by (simp add: book_keeping_def Let_def)

lemma book_keeping_bval:
  "bval (book_keeping X ts v s) = (if v < bval s \<and> v < 10 ^ 99 then v else bval s)"
  by (simp add: book_keeping_def Let_def)

lemma event_times_quiet: "event_times (replicate 20 (- 1 / 2)) = [20]"
  by (simp add: event_times_kill kill_times_nonpos)

lemma fitness_hold_quiet:
  "fitness hold (replicate 20 (- 1 / 2)) s
     = (Inr (- 10), book_keeping (replicate 20 (- 1 / 2)) [20] (- 10) s)"
proof -
  have sim: "sim_loop hold (event_times (replicate 20 (- 1 / 2)))
       [0..<length (event_times (replicate 20 (- 1 / 2)))]
       (pop0, set_initial_value integrator pop0 0)
       = Inr ((10, 5), \<lparr>cur_y = (10, 5), cur_t = 20\<rparr>)"
    unfolding event_times_quiet by (simp add: eval_defs)
  have "fitness hold (replicate 20 (- 1 / 2)) s
     = (Inr (- max 0 (fst (10::real, 5::real))),
        book_keeping (replicate 20 (- 1 / 2)) (event_times (replicate 20 (- 1 / 2)))
          (- max 0 (fst (10::real, 5::real))) s)"
    by (rule fitness_hold [OF sim]) simp
  then show ?thesis unfolding event_times_quiet by simp
qed

text \<open>
  Claim C6. The returned fitness is the negative of the maximum rabbit value over the
  states at \<open>50\<close> evenly spaced sample times from \<open>len(X)\<close> to \<open>len(X) + 5\<close>, the first
  being the phase-end time; the states are obtained by continuing the solver from the
  phase-end state with no transition in between. The running maximum starts at \<open>0\<close>, so
  the value is \<open>- max 0 m\<close> for the sampled maximum \<open>m\<close>; it is \<open>- m\<close> as soon as one
  sampled rabbit value is non-negative, as populations are.
\<close>

theorem fitness_is_negated_peak:
  assumes "fitness sv X s = (Inr v, s')"
  shows "\<exists>p I ps.
     sim_loop sv (event_times X) [0..<length (event_times X)]
        (pop0, set_initial_value integrator pop0 0) = Inr (p, I)
     \<and> propagate sv p (real (length X)) (map (\<lambda>k. real (length X) + real k * (5 / 49)) [0..<50]) = Inr ps
     \<and> length ps = 50
     \<and> v = - max 0 (Max (set (map fst ps)))
     \<and> ((\<exists>q \<in> set ps. 0 \<le> fst q) \<longrightarrow> v = - Max (set (map fst ps)))"
proof -
  let ?ts = "event_times X"
  let ?us = "linspace (real (length X)) (real (length X) + 5) 50"
  from fitness_Inr [OF assms] obtain p I m p2 I2 where
    sim: "sim_loop sv ?ts [0..<length ?ts] (pop0, set_initial_value integrator pop0 0) = Inr (p, I)"
    and sc: "score_loop sv ?us (0, p, I) = Inr (m, p2, I2)" and v: "v = - m"
    by blast
  have ne: "?ts \<noteq> []" by (simp add: event_times_kill)
  from sim_loop_final [OF ne sim] have cy: "cur_y I = p" and ct: "cur_t I = real (length X)"
    by (simp_all add: event_times_kill)
  from score_loop_propagate [OF sc] obtain ps where
    pr: "propagate sv p (real (length X)) ?us = Inr ps" and len: "length ps = length ?us"
    and m: "m = Max (set (0 # map fst ps))" by (auto simp add: cy ct)
  have l50: "length ps = 50" using len by (simp add: linspace_def)
  then have pne: "map fst ps \<noteq> []" by auto
  have m2: "m = max 0 (Max (set (map fst ps)))" using m pne by (simp add: Max_insert)
  have pos: "v = - Max (set (map fst ps))" if "\<exists>q \<in> set ps. 0 \<le> fst q"
  proof -
    from that obtain q where q: "q \<in> set ps" "0 \<le> fst q" by blast
    then have "fst q \<le> Max (set (map fst ps))" by (intro Max_ge) auto
    with q have "0 \<le> Max (set (map fst ps))" by linarith
    with m2 v show ?thesis by simp
  qed
  from sim pr l50 m2 v pos show ?thesis by (simp only: linspace_50) blast
qed


theorem fitness_is_negated_peak_witness:
  "fitness hold [1 / 2, - 1 / 2] shared_init
     = (Inr (- 10), book_keeping [1 / 2, - 1 / 2] (event_times [1 / 2, - 1 / 2]) (- 10) shared_init)
   \<and> propagate hold (10, 4) 2 (map (\<lambda>k. 2 + real k * (5 / 49)) [0..<50]) = Inr (replicate 50 (10, 4))
   \<and> (0::real) \<le> fst (10::real, 4::real)
   \<and> - 10 = - Max (set (map fst (replicate 50 (10::real, 4::real))))"
  using fitness_is_negated_peak [OF fitness_hold_short [of shared_init]]
    fitness_hold_short [of shared_init]
  by (simp add: propagate_hold)







section \<open>Runs of calls: the shared best value and counter\<close>

lemma fitness_cases:
  "(\<exists>e. fitness sv X s = (Inl e, s))
   \<or> (\<exists>v. v \<le> 0 \<and> fitness sv X s = (Inr v, book_keeping X (event_times X) v s))"
proof (cases "fitness sv X s")
  case (Pair r s')
  show ?thesis
  proof (cases r)
    case (Inl e)
    with Pair fitness_Inl [of sv X s e s'] show ?thesis by simp
  next
    case (Inr v)
    with Pair fitness_Inr [of sv X s v s'] fitness_nonpos [of sv X s v s'] show ?thesis by auto
  qed
qed

lemma fitness_bval:
  "bval (snd (fitness sv X s)) =
     (case fst (fitness sv X s) of
        Inl e \<Rightarrow> bval s
      | Inr v \<Rightarrow> if v < bval s \<and> v < 10 ^ 99 then v else bval s)"
  using fitness_cases [of sv X s] by (auto simp add: book_keeping_bval)

lemma fitness_evals:
  "evals (snd (fitness sv X s)) =
     (case fst (fitness sv X s) of Inl e \<Rightarrow> evals s | Inr v \<Rightarrow> evals s + 1)"
  using fitness_cases [of sv X s] by (auto simp add: book_keeping_evals)

lemma fitness_bval_le: "bval (snd (fitness sv X s)) \<le> bval s"
  by (simp add: fitness_bval split: sum.splits)

lemma evaluate_all_Cons:
  "evaluate_all sv (X # Xs) s =
     (fst (fitness sv X s) # fst (evaluate_all sv Xs (snd (fitness sv X s))),
      snd (evaluate_all sv Xs (snd (fitness sv X s))))"
  by (simp split: prod.splits)

lemma evaluate_all_append:
  "evaluate_all sv (Ys @ Zs) s =
     (fst (evaluate_all sv Ys s) @ fst (evaluate_all sv Zs (snd (evaluate_all sv Ys s))),
      snd (evaluate_all sv Zs (snd (evaluate_all sv Ys s))))"
proof (induction Ys arbitrary: s)
  case Nil
  then show ?case by simp
next
  case (Cons Y Ys)
  show ?case by (simp only: append_Cons evaluate_all_Cons Cons.IH fst_conv snd_conv)
qed

lemma evaluate_all_bval_le: "bval (snd (evaluate_all sv Xs s)) \<le> bval s"
proof (induction Xs arbitrary: s)
  case Nil
  then show ?case by simp
next
  case (Cons X Xs)
  have "bval (snd (evaluate_all sv (X # Xs) s)) = bval (snd (evaluate_all sv Xs (snd (fitness sv X s))))"
    by (simp only: evaluate_all_Cons snd_conv)
  also have "\<dots> \<le> bval (snd (fitness sv X s))" by (rule Cons.IH)
  also have "\<dots> \<le> bval s" by (rule fitness_bval_le)
  finally show ?case .
qed

lemma Min_Cons: "Min (set (x # xs)) = (if xs = [] then x else min x (Min (set xs)))"
  by (cases xs) (simp_all add: Min_insert)

lemma evaluate_all_bval_Min:
  "bval s \<le> 10 ^ 99 \<Longrightarrow>
   bval (snd (evaluate_all sv Xs s)) = Min (set (bval s # accepted_values (fst (evaluate_all sv Xs s))))"
proof (induction Xs arbitrary: s)
  case Nil
  then show ?case by (simp add: accepted_values_def)
next
  case (Cons X Xs)
  let ?s1 = "snd (fitness sv X s)"
  let ?rs = "fst (evaluate_all sv Xs ?s1)"
  have le1: "bval ?s1 \<le> 10 ^ 99" using fitness_bval_le [of sv X s] Cons.prems by linarith
  have ih: "bval (snd (evaluate_all sv Xs ?s1)) = Min (set (bval ?s1 # accepted_values ?rs))"
    by (rule Cons.IH [OF le1])
  have l: "bval (snd (evaluate_all sv (X # Xs) s)) = Min (set (bval ?s1 # accepted_values ?rs))"
    using ih by (simp only: evaluate_all_Cons snd_conv)
  have r: "fst (evaluate_all sv (X # Xs) s) = fst (fitness sv X s) # ?rs"
    by (simp only: evaluate_all_Cons fst_conv)
  show ?case
  proof (cases "fst (fitness sv X s)")
    case (Inl e)
    then have "bval ?s1 = bval s" by (simp add: fitness_bval)
    with l r Inl show ?thesis by (simp add: accepted_values_def)
  next
    case (Inr v)
    then have b: "bval ?s1 = (if v < bval s \<and> v < 10 ^ 99 then v else bval s)"
      by (simp add: fitness_bval)
    have acc: "accepted_values (fst (evaluate_all sv (X # Xs) s))
        = (if v < 10 ^ 99 then v # accepted_values ?rs else accepted_values ?rs)"
      using r Inr by (simp add: accepted_values_def)
    show ?thesis
    proof (cases "v < bval s")
      case True
      with Cons.prems have v99: "v < 10 ^ 99" by linarith
      with True b have "bval ?s1 = v" by simp
      with l acc v99 True show ?thesis by (simp only: Min_Cons) (simp add: min_def)
    next
      case False
      with b have bs: "bval ?s1 = bval s" by simp
      show ?thesis
      proof (cases "v < 10 ^ 99")
        case True
        with l acc bs False show ?thesis by (simp only: Min_Cons) (auto simp add: min_def)
      next
        case False
        with l acc bs show ?thesis by simp
      qed
    qed
  qed
qed

lemma evaluate_all_evals:
  "evals (snd (evaluate_all sv Xs s))
     = evals s + of_nat (length (returned_values (fst (evaluate_all sv Xs s))))"
proof (induction Xs arbitrary: s)
  case Nil
  then show ?case by simp
next
  case (Cons X Xs)
  let ?s1 = "snd (fitness sv X s)"
  have "evals (snd (evaluate_all sv (X # Xs) s)) = evals (snd (evaluate_all sv Xs ?s1))"
    by (simp only: evaluate_all_Cons snd_conv)
  also have "\<dots> = evals ?s1 + of_nat (length (returned_values (fst (evaluate_all sv Xs ?s1))))"
    by (rule Cons.IH)
  finally show ?case
    by (cases "fst (fitness sv X s)")
      (simp_all add: evaluate_all_Cons fitness_evals del: evaluate_all.simps(2))
qed

lemma evaluate_all_length: "length (fst (evaluate_all sv Xs s)) = length Xs"
  by (induction Xs arbitrary: s) (simp_all add: evaluate_all_Cons del: evaluate_all.simps(2))

lemma evaluate_all_total:
  assumes "\<forall>f y t u. \<exists>y'. sv f y t u = Inr y'"
  shows "length (returned_values (fst (evaluate_all sv Xs s))) = length Xs"
proof (induction Xs arbitrary: s)
  case Nil
  then show ?case by simp
next
  case (Cons X Xs)
  from fitness_total [OF assms, of X s] obtain v where "fst (fitness sv X s) = Inr v" by auto
  then show ?case using Cons.IH by (simp add: evaluate_all_Cons del: evaluate_all.simps(2))
qed

lemma sint_small: "n < 2 ^ 31 \<Longrightarrow> sint (of_nat n :: 32 word) = int n"
proof -
  assume "n < 2 ^ 31"
  then have "int n < 2 ^ 31" by (metis of_nat_less_iff of_nat_numeral of_nat_power)
  then show ?thesis by (simp add: signed_of_nat signed_take_bit_int_eq_self)
qed

lemma sint_wrap: "sint (of_nat (2 ^ 31) :: 32 word) = - (2 ^ 31)"
  by simp

lemma hold_total: "\<forall>f y t u. \<exists>y'. hold f y t u = Inr y'"
  by (simp add: hold_def)

lemma worker_step_twice:
  "k < length ws \<Longrightarrow> ws ! k = BeforeLoad \<Longrightarrow>
   worker_step k (worker_step k (ev, ws)) = (ev + 1, ws[k := Stored])"
  by simp

lemma evaluate_all_hold_two:
  "evaluate_all hold [[1 / 2, - 1 / 2], replicate 20 (- 1 / 2)] shared_init
     = ([Inr (- 10), Inr (- 10)],
        \<lparr>bval = - 10, evals = 2,
         logged = [\<lparr>nfev = 1, fval = - 10, fox_kill_at = [1 / 2], x_logged = [1 / 2, - 1 / 2]\<rparr>]\<rparr>)"
proof -
  have e: "event_times [1 / 2, - 1 / 2] = [1 / 2, 2]" by (simp add: event_times_def)
  have 1: "fitness hold [1 / 2, - 1 / 2] shared_init
      = (Inr (- 10), \<lparr>bval = - 10, evals = 1,
         logged = [\<lparr>nfev = 1, fval = - 10, fox_kill_at = [1 / 2], x_logged = [1 / 2, - 1 / 2]\<rparr>]\<rparr>)"
    unfolding fitness_hold_short e
    by (simp add: book_keeping_def shared_init_def bval_init_def)
  show ?thesis
    unfolding evaluate_all.simps 1 fitness_hold_quiet
    by (simp add: book_keeping_def)
qed

text \<open>
  Claim C7. Over any sequence of calls from the initialised globals (\<open>bval = 1E99\<close>, the
  sentinel), \<open>bval\<close> never increases; a call changes it only to a returned value that is
  strictly below the current \<open>bval\<close> and strictly below the threshold \<open>1E99\<close>; and after
  any number of calls it is the minimum of the accepted values returned so far (the
  sentinel while there is none).
\<close>

theorem best_value_running_minimum:
  "bval (snd (fitness sv X s)) =
     (case fst (fitness sv X s) of
        Inl e \<Rightarrow> bval s
      | Inr v \<Rightarrow> if v < bval s \<and> v < 10 ^ 99 then v else bval s)
   \<and> bval (snd (evaluate_all sv (Ys @ Zs) s)) \<le> bval (snd (evaluate_all sv Ys s))
   \<and> (bval s = bval_init \<longrightarrow>
        bval (snd (evaluate_all sv Ys s))
          = Min (set (bval_init # accepted_values (fst (evaluate_all sv Ys s))))
        \<and> (accepted_values (fst (evaluate_all sv Ys s)) \<noteq> [] \<longrightarrow>
             bval (snd (evaluate_all sv Ys s))
               = Min (set (accepted_values (fst (evaluate_all sv Ys s))))))"
proof -
  have 2: "bval (snd (evaluate_all sv (Ys @ Zs) s)) \<le> bval (snd (evaluate_all sv Ys s))"
    by (simp only: evaluate_all_append snd_conv evaluate_all_bval_le)
  have 3: "bval (snd (evaluate_all sv Ys s))
          = Min (set (bval_init # accepted_values (fst (evaluate_all sv Ys s))))"
    if "bval s = bval_init"
    using evaluate_all_bval_Min [of s sv Ys] that by (simp add: bval_init_def)
  have 4: "bval (snd (evaluate_all sv Ys s))
               = Min (set (accepted_values (fst (evaluate_all sv Ys s))))"
    if b: "bval s = bval_init" and ne: "accepted_values (fst (evaluate_all sv Ys s)) \<noteq> []"
  proof -
    let ?acc = "accepted_values (fst (evaluate_all sv Ys s))"
    from ne obtain v where v: "v \<in> set ?acc" by (cases ?acc) auto
    then have "v < 10 ^ 99" by (simp add: accepted_values_def)
    moreover have "Min (set ?acc) \<le> v" using v by simp
    ultimately have le: "Min (set ?acc) \<le> bval_init" by (simp add: bval_init_def)
    have "Min (set (bval_init # ?acc)) = min bval_init (Min (set ?acc))"
      using ne by (metis Min_Cons)
    also have "\<dots> = Min (set ?acc)" using le by (rule min_absorb2)
    finally show ?thesis using 3 [OF b] by (simp only:)
  qed
  from fitness_bval [of sv X s] 2 3 4 show ?thesis by blast
qed

theorem best_value_running_minimum_witness:
  "bval shared_init = bval_init
   \<and> evaluate_all hold [[1 / 2, - 1 / 2], replicate 20 (- 1 / 2)] shared_init
     = ([Inr (- 10), Inr (- 10)],
        \<lparr>bval = - 10, evals = 2,
         logged = [\<lparr>nfev = 1, fval = - 10, fox_kill_at = [1 / 2], x_logged = [1 / 2, - 1 / 2]\<rparr>]\<rparr>)
   \<and> accepted_values [Inr (- 10), Inr (- 10)] = [- 10, - 10]
   \<and> Min (set (bval_init # [- 10, - 10])) = - 10"
  using best_value_running_minimum [of hold "[1 / 2, - 1 / 2]" shared_init "[[1 / 2, - 1 / 2], replicate 20 (- 1 / 2)]" "[]"]
    evaluate_all_hold_two
  by (simp add: shared_init_def accepted_values_def bval_init_def)

text \<open>
  Claim C8, as stated: after \<open>N\<close> completed calls, successes or rejections, \<open>evalCount\<close> is
  exactly \<open>N\<close>, also under concurrent calls. Three ways it fails: a call whose integration
  fails raises before the book keeping and is not counted; the counter is a C \<open>int\<close>, so
  after \<open>2^31\<close> returning calls it reads \<open>-2^31\<close>; and two workers that both read before
  either writes leave \<open>1\<close> after two calls.
\<close>

theorem eval_count_counterexample:
  "evals (snd (evaluate_all failing [replicate 20 (- 1 / 2)] shared_init)) = 0
   \<and> sint (evals (snd (evaluate_all hold (replicate (2 ^ 31) (replicate 20 (- 1 / 2))) shared_init)))
       = - (2 ^ 31)
   \<and> run_schedule [0, 1, 0, 1] (0, [BeforeLoad, BeforeLoad]) = (1, [Stored, Stored])"
proof -
  have 1: "evals (snd (evaluate_all failing [replicate 20 (- 1 / 2)] shared_init)) = 0"
    by (simp add: fitness_failing shared_init_def)
  have "length (returned_values (fst (evaluate_all hold (replicate (2 ^ 31) (replicate 20 (- 1 / 2))) shared_init)))
       = 2 ^ 31"
    using evaluate_all_total [OF hold_total] by simp
  then have "evals (snd (evaluate_all hold (replicate (2 ^ 31) (replicate 20 (- 1 / 2))) shared_init))
       = of_nat (2 ^ 31)"
    using evaluate_all_evals [of hold "replicate (2 ^ 31) (replicate 20 (- 1 / 2))" shared_init]
    by (simp add: shared_init_def)
  then have 2: "sint (evals (snd (evaluate_all hold (replicate (2 ^ 31) (replicate 20 (- 1 / 2))) shared_init)))
       = - (2 ^ 31)"
    by (simp only: sint_wrap)
  have 3: "run_schedule [0, 1, 0, 1] (0, [BeforeLoad, BeforeLoad]) = (1, [Stored, Stored])"
    by (simp add: run_schedule_def)
  from 1 2 3 show ?thesis by blast
qed

text \<open>
  Claim C8, amended. In a sequence of calls made one after the other, each call that
  returns increments \<open>evals\<close> by exactly one (as a 32-bit C \<open>int\<close>) and a call that raises
  leaves it unchanged: from \<open>evals = 0\<close>, after \<open>N < 2^31\<close> returning calls it reads exactly
  \<open>N\<close>, and every call returns when the integrator never raises. The increment is a read
  followed by a write; a worker whose two steps are not interleaved with another's adds
  exactly one.
\<close>

theorem eval_count_sequential:
  "evals (snd (fitness sv X s)) =
     (case fst (fitness sv X s) of Inl e \<Rightarrow> evals s | Inr v \<Rightarrow> evals s + 1)
   \<and> evals (snd (evaluate_all sv Xs s))
       = evals s + of_nat (length (returned_values (fst (evaluate_all sv Xs s))))
   \<and> (evals s = 0 \<and> length (returned_values (fst (evaluate_all sv Xs s))) < 2 ^ 31 \<longrightarrow>
        sint (evals (snd (evaluate_all sv Xs s)))
          = int (length (returned_values (fst (evaluate_all sv Xs s)))))
   \<and> ((\<forall>f y t u. \<exists>y'. sv f y t u = Inr y') \<longrightarrow>
        length (returned_values (fst (evaluate_all sv Xs s))) = length Xs)
   \<and> (k < length ws \<and> ws ! k = BeforeLoad \<longrightarrow>
        worker_step k (worker_step k (evals s, ws))
          = (evals (book_keeping X ts v s), ws[k := Stored]))"
proof -
  let ?n = "length (returned_values (fst (evaluate_all sv Xs s)))"
  have 3: "sint (evals (snd (evaluate_all sv Xs s))) = int ?n" if "evals s = 0" and "?n < 2 ^ 31"
    using that sint_small [of ?n] by (simp add: evaluate_all_evals [of sv Xs s])
  have 5: "worker_step k (worker_step k (evals s, ws))
          = (evals (book_keeping X ts v s), ws[k := Stored])"
    if "k < length ws" and "ws ! k = BeforeLoad"
    using worker_step_twice [OF that] by (simp add: book_keeping_evals)
  from fitness_evals [of sv X s] evaluate_all_evals [of sv Xs s] 3 evaluate_all_total [of sv Xs s] 5
  show ?thesis by blast
qed

theorem eval_count_sequential_witness:
  "evals shared_init = 0
   \<and> evaluate_all hold [[1 / 2, - 1 / 2], replicate 20 (- 1 / 2)] shared_init
     = ([Inr (- 10), Inr (- 10)],
        \<lparr>bval = - 10, evals = 2,
         logged = [\<lparr>nfev = 1, fval = - 10, fox_kill_at = [1 / 2], x_logged = [1 / 2, - 1 / 2]\<rparr>]\<rparr>)
   \<and> length (returned_values [Inr (- 10), Inr (- 10)]) < (2::nat) ^ 31
   \<and> sint (2 :: 32 word) = 2
   \<and> run_schedule [0, 0, 1, 1] (0, [BeforeLoad, BeforeLoad]) = (2, [Stored, Stored])"
  using eval_count_sequential [of hold "[]" shared_init "[[1 / 2, - 1 / 2], replicate 20 (- 1 / 2)]" 0 "[BeforeLoad]"]
    evaluate_all_hold_two
  by (simp add: shared_init_def run_schedule_def)

section \<open>What a call mutates\<close>

lemma preserves_refl: "n \<le> next_addr h \<Longrightarrow> preserves n h h"
  by (simp add: preserves_def)

lemma preserves_alloc: "preserves n h h' \<Longrightarrow> preserves n h (snd (alloc h' ob))"
  by (auto simp add: preserves_def alloc_def)

lemma preserves_write: "preserves n h h' \<Longrightarrow> n \<le> r \<Longrightarrow> preserves n h (write_fox h' r v)"
  by (auto simp add: preserves_def write_fox_def split: option.splits)

lemma read_pop_alloc: "read_pop (snd (alloc h (PopArray p))) (next_addr h) = p"
  by (simp add: read_pop_def alloc_def)

lemma read_pop_cell: "cells h r = Some (PopArray p) \<Longrightarrow> read_pop h r = p"
  by (simp add: read_pop_def)

lemma integrate_h_Inl:
  "sv (\<lambda>s p. lotkavolterra s p a b c d) (read_pop h (y_ref I)) (t_h I) t = Inl e \<Longrightarrow>
   integrate_h sv I t h = Inl (e, h) \<and> integrate sv (ode_of I h) t = Inl e"
  by (simp add: integrate_h_def integrate_def ode_of_def)

lemma integrate_h_Inr:
  "sv (\<lambda>s p. lotkavolterra s p a b c d) (read_pop h (y_ref I)) (t_h I) t = Inr y' \<Longrightarrow>
   integrate_h sv I t h
     = Inr (next_addr h, I\<lparr>y_ref := next_addr h, t_h := t\<rparr>, snd (alloc h (PopArray y')))
   \<and> integrate sv (ode_of I h) t = Inr (y', \<lparr>cur_y = y', cur_t = t\<rparr>)"
  by (simp add: integrate_h_def integrate_def ode_of_def alloc_def)

lemma cells_alloc_new: "cells (snd (alloc h ob)) (next_addr h) = Some ob"
  by (simp add: alloc_def)

lemma ode_of_alloc_new:
  "ode_of (I\<lparr>y_ref := next_addr h, t_h := t\<rparr>) (snd (alloc h (PopArray y'))) = \<lparr>cur_y = y', cur_t = t\<rparr>"
  by (simp add: ode_of_def read_pop_alloc)

lemma sim_step_h_sim:
  assumes "preserves n h0 h"
  shows "ode_result (sim_step_h sv ts i (r, I, h)) = map_sum id snd (sim_step sv ts i (p, ode_of I h))
       \<and> preserves n h0 (store_of (sim_step_h sv ts i (r, I, h)))"
proof (cases "sv (\<lambda>s p. lotkavolterra s p a b c d) (read_pop h (y_ref I)) (t_h I) (ts ! i)")
  case (Inl e)
  from integrate_h_Inl [where sv = sv and h = h and I = I, OF Inl] assms show ?thesis
    by (simp add: sim_step_h_def sim_step_def)
next
  case (Inr y')
  let ?r = "next_addr h"
  let ?I1 = "I\<lparr>y_ref := ?r, t_h := ts ! i\<rparr>"
  let ?h1 = "snd (alloc h (PopArray y'))"
  note ih = integrate_h_Inr [where sv = sv and h = h and I = I, OF Inr]
  have p1: "preserves n h0 ?h1" using assms by (rule preserves_alloc)
  have nr: "n \<le> ?r" using assms by (simp add: preserves_def)
  show ?thesis
  proof (cases "int i < int (length ts) - 1")
    case False
    with ih p1 show ?thesis
      by (simp add: sim_step_h_def sim_step_def ode_of_alloc_new)
  next
    case True
    let ?v = "max 1 (snd (read_pop ?h1 ?r) - 1)"
    let ?h2 = "write_fox ?h1 ?r ?v"
    have rp: "read_pop ?h1 ?r = y'" by (rule read_pop_alloc)
    have c2: "cells ?h2 ?r = Some (PopArray (kill_fox y'))"
      by (simp add: write_fox_def cells_alloc_new rp kill_fox_def)
    have p2: "preserves n h0 ?h2" using p1 nr by (rule preserves_write)
    have si: "set_initial_value_h ?I1 ?r (ts ! i) ?h2 = (?I1, ?h2)"
      by (simp add: set_initial_value_h_def c2)
    have oo: "ode_of ?I1 ?h2 = \<lparr>cur_y = kill_fox y', cur_t = ts ! i\<rparr>"
      by (simp add: ode_of_def read_pop_cell [OF c2])
    have h: "sim_step_h sv ts i (r, I, h) = Inr (?r, ?I1, ?h2)"
      using ih True si by (simp add: sim_step_h_def Let_def)
    have pu: "sim_step sv ts i (p, ode_of I h)
        = Inr (kill_fox y', \<lparr>cur_y = kill_fox y', cur_t = ts ! i\<rparr>)"
      using ih True by (simp add: sim_step_def Let_def set_initial_value_def)
    show ?thesis by (simp add: h pu oo p2)
  qed
qed

lemma sim_loop_h_sim:
  "preserves n h0 h \<Longrightarrow>
   ode_result (sim_loop_h sv ts is (r, I, h)) = map_sum id snd (sim_loop sv ts is (p, ode_of I h))
   \<and> preserves n h0 (store_of (sim_loop_h sv ts is (r, I, h)))"
proof (induction "is" arbitrary: r I h p)
  case Nil
  then show ?case by simp
next
  case (Cons i "is")
  note st = sim_step_h_sim [OF Cons.prems, of sv ts i r I p]
  show ?case
  proof (cases "sim_step_h sv ts i (r, I, h)")
    case (Inl eh)
    obtain e h' where eh: "eh = (e, h')" by (cases eh)
    with Inl st show ?thesis by (cases "sim_step sv ts i (p, ode_of I h)") auto
  next
    case (Inr st1)
    obtain r1 I1 h1 where st1: "st1 = (r1, I1, h1)" using prod_cases3 by blast
    from Inr st1 st have pr: "preserves n h0 h1" by simp
    from Inr st1 st obtain p1 where pu: "sim_step sv ts i (p, ode_of I h) = Inr (p1, ode_of I1 h1)"
      by (cases "sim_step sv ts i (p, ode_of I h)") auto
    from Cons.IH [OF pr, of r1 I1 p1] Inr st1 pu show ?thesis by simp
  qed
qed

lemma score_loop_h_sim:
  "preserves n h0 h \<Longrightarrow>
   score_result (score_loop_h sv us (m, r, I, h))
     = map_sum id (\<lambda>(m', p', I'). (m', I')) (score_loop sv us (m, p, ode_of I h))
   \<and> preserves n h0 (score_store (score_loop_h sv us (m, r, I, h)))"
proof (induction us arbitrary: m r I h p)
  case Nil
  then show ?case by simp
next
  case (Cons u us)
  show ?case
  proof (cases "sv (\<lambda>s p. lotkavolterra s p a b c d) (read_pop h (y_ref I)) (t_h I) u")
    case (Inl e)
    from integrate_h_Inl [where sv = sv and h = h and I = I, OF Inl] Cons.prems show ?thesis by simp
  next
    case (Inr y')
    let ?r = "next_addr h"
    let ?I1 = "I\<lparr>y_ref := ?r, t_h := u\<rparr>"
    let ?h1 = "snd (alloc h (PopArray y'))"
    note ih = integrate_h_Inr [where sv = sv and h = h and I = I, OF Inr]
    have p1: "preserves n h0 ?h1" using Cons.prems by (rule preserves_alloc)
    have rp: "read_pop ?h1 ?r = y'" by (rule read_pop_alloc)
    have oo: "ode_of ?I1 ?h1 = \<lparr>cur_y = y', cur_t = u\<rparr>" by (rule ode_of_alloc_new)
    from Cons.IH [OF p1, of "max m (fst y')" ?r ?I1 y'] ih show ?thesis
      by (simp add: rp oo)
  qed
qed

lemma fitness_h_sim:
  assumes p0: "cells h pop0_ref = Some (PopList pop0)" and x: "cells h x_ref = Some (Vec X)"
    and lt: "pop0_ref < next_addr h"
  shows "fst (fitness_h sv x_ref h s) = fst (fitness sv X s)
       \<and> fst (snd (fitness_h sv x_ref h s)) = snd (fitness sv X s)
       \<and> preserves (next_addr h) h (snd (snd (fitness_h sv x_ref h s)))"
proof -
  let ?n = "next_addr h"
  let ?ha = "snd (alloc h (Vec [0]))"
  let ?Ia = "\<lparr>y_ref = ?n, t_h = 0\<rparr>"
  let ?hb = "snd (alloc ?ha (PopArray pop0))"
  let ?Ib = "\<lparr>y_ref = next_addr ?ha, t_h = 0\<rparr>"
  let ?ts = "event_times X"
  let ?us = "linspace (real (length X)) (real (length X) + 5) 50"
  have rv: "read_vec h x_ref = X" using x by (simp add: read_vec_def)
  have ig: "integrator_h h = (?Ia, ?ha)" by (simp add: integrator_h_def alloc_def)
  have c0: "cells ?ha pop0_ref = Some (PopList pop0)" using p0 lt by (simp add: alloc_def)
  have si: "set_initial_value_h ?Ia pop0_ref 0 ?ha = (?Ib, ?hb)"
    by (simp add: set_initial_value_h_def c0) (simp add: alloc_def)
  have oo: "ode_of ?Ib ?hb = set_initial_value integrator pop0 0"
    by (simp add: ode_of_def read_pop_alloc set_initial_value_def integrator_def)
  have pr: "preserves ?n h ?hb"
    by (intro preserves_alloc preserves_refl) simp
  note sl = sim_loop_h_sim [OF pr, of sv ?ts "[0..<length ?ts]" pop0_ref ?Ib pop0]
  have unf: "fitness_h sv x_ref h s =
      (case sim_loop_h sv ?ts [0..<length ?ts] (pop0_ref, ?Ib, ?hb) of
         Inl (e, h2) \<Rightarrow> (Inl e, s, h2)
       | Inr (r, I1, h2) \<Rightarrow>
           (case score_loop_h sv ?us (0, r, I1, h2) of
              Inl (e, h3) \<Rightarrow> (Inl e, s, h3)
            | Inr (max_rabbits, r2, I2, h3) \<Rightarrow>
                (Inr (- max_rabbits), book_keeping X ?ts (- max_rabbits) s, h3)))"
    unfolding fitness_h_def Let_def rv ig prod.case si by simp
  have unp: "fitness sv X s =
      (case sim_loop sv ?ts [0..<length ?ts] (pop0, ode_of ?Ib ?hb) of
         Inl e \<Rightarrow> (Inl e, s)
       | Inr (p, I1) \<Rightarrow>
           (case score_loop sv ?us (0, p, I1) of
              Inl e \<Rightarrow> (Inl e, s)
            | Inr (max_rabbits, p2, I2) \<Rightarrow>
                (Inr (- max_rabbits), book_keeping X ?ts (- max_rabbits) s)))"
    unfolding fitness_def Let_def oo by simp
  show ?thesis
  proof (cases "sim_loop_h sv ?ts [0..<length ?ts] (pop0_ref, ?Ib, ?hb)")
    case (Inl eh)
    obtain e h2 where eh: "eh = (e, h2)" by (cases eh)
    from sl Inl eh have "sim_loop sv ?ts [0..<length ?ts] (pop0, ode_of ?Ib ?hb) = Inl e"
      and "preserves ?n h h2"
      by (cases "sim_loop sv ?ts [0..<length ?ts] (pop0, ode_of ?Ib ?hb)", auto)+
    then show ?thesis by (simp add: unf unp Inl eh)
  next
    case (Inr st1)
    obtain r I1 h2 where st1: "st1 = (r, I1, h2)" using prod_cases3 by blast
    from sl Inr st1 have pr2: "preserves ?n h h2" by simp
    from sl Inr st1 obtain p1 where
      pu: "sim_loop sv ?ts [0..<length ?ts] (pop0, ode_of ?Ib ?hb) = Inr (p1, ode_of I1 h2)"
      by (cases "sim_loop sv ?ts [0..<length ?ts] (pop0, ode_of ?Ib ?hb)") auto
    note sc = score_loop_h_sim [OF pr2, of sv ?us 0 r I1 p1]
    show ?thesis
    proof (cases "score_loop_h sv ?us (0, r, I1, h2)")
      case (Inl eh)
      obtain e h3 where eh: "eh = (e, h3)" by (cases eh)
      from sc Inl eh have "score_loop sv ?us (0, p1, ode_of I1 h2) = Inl e" and "preserves ?n h h3"
        by (cases "score_loop sv ?us (0, p1, ode_of I1 h2)", auto)+
      then show ?thesis by (simp add: unf unp Inr st1 pu Inl eh)
    next
      case (Inr st2)
      obtain m r2 I2 h3 where st2: "st2 = (m, r2, I2, h3)" using prod_cases4 by blast
      from sc Inr st2 have pr3: "preserves ?n h h3" by simp
      from sc Inr st2 obtain p2 Ip2 where
        "score_loop sv ?us (0, p1, ode_of I1 h2) = Inr (m, p2, Ip2)"
        by (cases "score_loop sv ?us (0, p1, ode_of I1 h2)") auto
      then show ?thesis using pr3 by (simp add: unf unp \<open>sim_loop_h sv ?ts [0..<length ?ts] (pop0_ref, ?Ib, ?hb) = Inr st1\<close> st1 pu Inr st2)
    qed
  qed
qed

lemma book_keeping_logged:
  "logged (book_keeping X ts v s) =
     (if v < bval s \<and> v < 10 ^ 99
      then logged s @ [\<lparr>nfev = sint (evals s + 1), fval = v, fox_kill_at = butlast ts, x_logged = X\<rparr>]
      else logged s)"
  by (simp add: book_keeping_def Let_def)

text \<open>
  Claim C10. A call of the evaluator leaves its argument \<open>X\<close> and the initial population
  \<open>pop0\<close> as they were, as every object that existed before the call (the foxes are
  killed in the arrays the integrator returned, never in \<open>pop0\<close>); it computes what the
  value-level model computes; and of the shared globals it changes nothing when it
  raises, and otherwise increments \<open>evals\<close> by one and, exactly when the value is below
  \<open>bval\<close> and the threshold, lowers \<open>bval\<close> to it and logs one record.
\<close>

theorem fitness_frame:
  assumes "cells h pop0_ref = Some (PopList pop0)" and "cells h x_ref = Some (Vec X)"
    and "pop0_ref < next_addr h" and "x_ref < next_addr h"
  shows "cells (snd (snd (fitness_h sv x_ref h s))) pop0_ref = Some (PopList pop0)
       \<and> cells (snd (snd (fitness_h sv x_ref h s))) x_ref = Some (Vec X)
       \<and> (\<forall>q < next_addr h. cells (snd (snd (fitness_h sv x_ref h s))) q = cells h q)
       \<and> (fst (fitness_h sv x_ref h s), fst (snd (fitness_h sv x_ref h s))) = fitness sv X s
       \<and> (case fst (fitness_h sv x_ref h s) of
            Inl e \<Rightarrow> fst (snd (fitness_h sv x_ref h s)) = s
          | Inr v \<Rightarrow>
              evals (fst (snd (fitness_h sv x_ref h s))) = evals s + 1
              \<and> bval (fst (snd (fitness_h sv x_ref h s)))
                  = (if v < bval s \<and> v < 10 ^ 99 then v else bval s)
              \<and> bval (fst (snd (fitness_h sv x_ref h s))) \<le> bval s
              \<and> logged (fst (snd (fitness_h sv x_ref h s)))
                  = (if v < bval s \<and> v < 10 ^ 99
                     then logged s @ [\<lparr>nfev = sint (evals s + 1), fval = v,
                                       fox_kill_at = butlast (event_times X), x_logged = X\<rparr>]
                     else logged s))"
proof -
  let ?res = "fitness_h sv x_ref h s"
  from fitness_h_sim [OF assms(1,2,3), of sv s]
  have r: "fst ?res = fst (fitness sv X s)" and s': "fst (snd ?res) = snd (fitness sv X s)"
    and pr: "preserves (next_addr h) h (snd (snd ?res))" by simp_all
  from pr have fr: "\<forall>q < next_addr h. cells (snd (snd ?res)) q = cells h q"
    by (simp add: preserves_def)
  have 1: "cells (snd (snd ?res)) pop0_ref = Some (PopList pop0)" using fr assms(1,3) by simp
  have 2: "cells (snd (snd ?res)) x_ref = Some (Vec X)" using fr assms(2,4) by simp
  have 4: "(fst ?res, fst (snd ?res)) = fitness sv X s" using r s' by simp
  have 5: "case fst ?res of
            Inl e \<Rightarrow> fst (snd ?res) = s
          | Inr v \<Rightarrow>
              evals (fst (snd ?res)) = evals s + 1
              \<and> bval (fst (snd ?res)) = (if v < bval s \<and> v < 10 ^ 99 then v else bval s)
              \<and> bval (fst (snd ?res)) \<le> bval s
              \<and> logged (fst (snd ?res))
                  = (if v < bval s \<and> v < 10 ^ 99
                     then logged s @ [\<lparr>nfev = sint (evals s + 1), fval = v,
                                       fox_kill_at = butlast (event_times X), x_logged = X\<rparr>]
                     else logged s)"
  proof (cases "fst (fitness sv X s)")
    case (Inl e)
    then have "fitness sv X s = (Inl e, snd (fitness sv X s))" by (metis prod.collapse)
    from fitness_Inl [OF this] show ?thesis using Inl by (simp add: r s')
  next
    case (Inr v)
    then have "fitness sv X s = (Inr v, snd (fitness sv X s))" by (metis prod.collapse)
    from fitness_Inr [OF this] have "snd (fitness sv X s) = book_keeping X (event_times X) v s"
      by blast
    then show ?thesis using Inr
      by (simp add: r s' book_keeping_evals book_keeping_bval book_keeping_logged)
  qed
  from 1 2 fr 4 5 show ?thesis by blast
qed

theorem fitness_frame_witness:
  "cells \<lparr>cells = [0 \<mapsto> PopList pop0, 1 \<mapsto> Vec [1 / 2, - 1 / 2]], next_addr = 2\<rparr> pop0_ref
     = Some (PopList pop0)
   \<and> cells \<lparr>cells = [0 \<mapsto> PopList pop0, 1 \<mapsto> Vec [1 / 2, - 1 / 2]], next_addr = 2\<rparr> 1
     = Some (Vec [1 / 2, - 1 / 2])
   \<and> pop0_ref < next_addr \<lparr>cells = [0 \<mapsto> PopList pop0, 1 \<mapsto> Vec [1 / 2, - 1 / 2]], next_addr = 2\<rparr>
   \<and> (1::nat) < next_addr \<lparr>cells = [0 \<mapsto> PopList pop0, 1 \<mapsto> Vec [1 / 2, - 1 / 2]], next_addr = 2\<rparr>
   \<and> fst (fitness_h hold 1
        \<lparr>cells = [0 \<mapsto> PopList pop0, 1 \<mapsto> Vec [1 / 2, - 1 / 2]], next_addr = 2\<rparr> shared_init)
     = Inr (- 10)
   \<and> cells (snd (snd (fitness_h hold 1
        \<lparr>cells = [0 \<mapsto> PopList pop0, 1 \<mapsto> Vec [1 / 2, - 1 / 2]], next_addr = 2\<rparr> shared_init))) pop0_ref
     = Some (PopList (10, 5))"
proof -
  let ?h = "\<lparr>cells = [0 \<mapsto> PopList pop0, 1 \<mapsto> Vec [1 / 2, - 1 / 2]], next_addr = 2\<rparr>"
  have a1: "cells ?h pop0_ref = Some (PopList pop0)" by (simp add: pop0_ref_def)
  have a2: "cells ?h 1 = Some (Vec [1 / 2, - 1 / 2])" by simp
  have a3: "pop0_ref < next_addr ?h" by (simp add: pop0_ref_def)
  have a4: "(1::nat) < next_addr ?h" by simp
  from fitness_frame [OF a1 a2 a3 a4, of hold shared_init] fitness_hold_short [of shared_init]
  have "fst (fitness_h hold 1 ?h shared_init) = Inr (- 10)"
    and "cells (snd (snd (fitness_h hold 1 ?h shared_init))) pop0_ref = Some (PopList (10, 5))"
    by (auto simp add: pop0_def)
  with a1 a2 a3 a4 show ?thesis by blast
qed

end
